theory Spec2Isabelle
  imports Complex_Main
begin

section \<open>The tempo chain builder of VSC.py\<close>

text \<open>
  The only function of \<^verbatim>\<open>src/VSC.py\<close> with an algorithm in it is
  \<^verbatim>\<open>atempo_chain\<close> (lines 15 to 28):
  \<^verbatim>\<open>
  def atempo_chain(sf):
      tempos = []
      while sf > 2.0:
          tempos.append("atempo=2.0")
          sf /= 2.0
      while sf < 0.5:
          tempos.append("atempo=0.5")
          sf *= 2.0
      tempos.append(f"atempo={sf}")
      return ",".join(tempos)
  \<close>
  The speed factor is a Python float. The function compares it with the constants
  \<open>2.0\<close> and \<open>0.5\<close>, divides it by \<open>2.0\<close> and multiplies it by \<open>2.0\<close>,
  and nothing else. It is modelled by an exact rational (\<^typ>\<open>rat\<close>): the constants are
  dyadic, and so is every finite float; halving a finite binary float above 2.0 and
  doubling one below 0.5 only move its exponent (or shift a subnormal), so neither
  operation rounds. Infinities and NaN are not values of the model.
  The local list \<^verbatim>\<open>tempos\<close> and the local \<^verbatim>\<open>sf\<close> are the state of the two loops,
  passed explicitly.
\<close>

subsection \<open>Strings\<close>

text \<open>\<^verbatim>\<open>sep.join(xs)\<close> of Python: the elements of \<open>xs\<close> with \<open>sep\<close> between them.\<close>

fun join :: "string \<Rightarrow> string list \<Rightarrow> string" where
  "join sep [] = []"
| "join sep [x] = x"
| "join sep (x # y # ys) = x @ sep @ join sep (y # ys)"

text \<open>
  The formatted string literal \<^verbatim>\<open>f"atempo={sf}"\<close>. How Python prints a float
  (\<^verbatim>\<open>float.__format__\<close> with an empty format, which is \<^verbatim>\<open>repr\<close>) belongs to the
  interpreter, not to this repository: it is the parameter \<open>fmt\<close>.
\<close>

definition atempo_token :: "(rat \<Rightarrow> string) \<Rightarrow> rat \<Rightarrow> string" where
  "atempo_token fmt sf = ''atempo='' @ fmt sf"

subsection \<open>The two loops\<close>

text \<open>
  First loop, lines 21 to 23. Over the rationals it ends on every input: the ceiling of
  \<open>sf\<close> decreases with each pass.
\<close>

function halve_loop :: "string list \<Rightarrow> rat \<Rightarrow> string list \<times> rat" where
  "halve_loop tempos sf =
     (if sf > 2 then halve_loop (tempos @ [''atempo=2.0'']) (sf / 2)
      else (tempos, sf))"
  by pat_completeness auto
termination
proof (relation "measure (\<lambda>(tempos, sf). nat \<lceil>sf\<rceil>)")
  show "wf (measure (\<lambda>(tempos, sf). nat \<lceil>sf\<rceil>))"
    by simp
next
  fix tempos :: "string list" and sf :: rat
  assume gt: "2 < sf"
  have "sf / 2 \<le> sf - 1"
    using gt by simp
  then have "\<lceil>sf / 2\<rceil> \<le> \<lceil>sf - 1\<rceil>"
    by (rule ceiling_mono)
  also have "\<dots> = \<lceil>sf\<rceil> - 1"
    by simp
  finally have "\<lceil>sf / 2\<rceil> < \<lceil>sf\<rceil>"
    by simp
  moreover have "0 < \<lceil>sf\<rceil>"
    using gt by (simp add: ceiling_less_iff)
  ultimately show "((tempos @ [''atempo=2.0''], sf / 2), (tempos, sf))
      \<in> measure (\<lambda>(tempos, sf). nat \<lceil>sf\<rceil>)"
    by simp
qed

declare halve_loop.simps [simp del]

text \<open>
  Second loop, lines 24 to 26. On \<open>sf \<le> 0\<close> it never ends (\<open>0 * 2.0\<close> is \<open>0\<close>, and a
  negative value only moves away from \<open>0.5\<close>), so not returning is the value \<open>None\<close>.
\<close>

partial_function (option) double_loop :: "string list \<Rightarrow> rat \<Rightarrow> (string list \<times> rat) option" where
  "double_loop tempos sf =
     (if sf < 1 / 2 then double_loop (tempos @ [''atempo=0.5'']) (sf * 2)
      else Some (tempos, sf))"

declare double_loop.simps [code]

subsection \<open>The function\<close>

text \<open>
  The state of the call when both loops are over, before line 27: the tokens appended so
  far and the remaining speed factor.
\<close>

definition atempo_loops :: "rat \<Rightarrow> (string list \<times> rat) option" where
  "atempo_loops sf = (case halve_loop [] sf of (tempos, sf') \<Rightarrow> double_loop tempos sf')"

definition atempo_chain :: "(rat \<Rightarrow> string) \<Rightarrow> rat \<Rightarrow> string option" where
  "atempo_chain fmt sf =
     (case atempo_loops sf of
        None \<Rightarrow> None
      | Some (tempos, sf') \<Rightarrow> Some (join '','' (tempos @ [atempo_token fmt sf'])))"

subsection \<open>The chain as numbers\<close>

text \<open>
  The function returns text. The stage multipliers it stands for are read off the tokens:
  the two literal tokens of the loops are the multipliers \<open>2.0\<close> and \<open>0.5\<close>, and the
  last token carries the remaining speed factor itself.
\<close>

definition tempo_value :: "string \<Rightarrow> rat" where
  "tempo_value t =
     (if t = ''atempo=2.0'' then 2 else if t = ''atempo=0.5'' then 1 / 2 else 0)"

definition stage_multipliers :: "rat \<Rightarrow> rat list option" where
  "stage_multipliers sf =
     (case atempo_loops sf of
        None \<Rightarrow> None
      | Some (tempos, sf') \<Rightarrow> Some (map tempo_value tempos @ [sf']))"

subsection \<open>The call on the interpreter's store\<close>

text \<open>
  \<^verbatim>\<open>tempos = []\<close> makes a new list object and \<^verbatim>\<open>tempos.append(x)\<close> changes that
  object in place. To state what a call does to the objects that were there before it,
  the same function is written once more over a store of list objects: an address is a
  position in the store, \<open>new_list\<close> is \<^verbatim>\<open>[]\<close> and \<open>list_append\<close> is
  \<^verbatim>\<open>list.append\<close>. The only address the function ever holds is the one \<open>new_list\<close> gave
  it, so \<open>list_append\<close> is never applied to a position outside the store.
\<close>

type_synonym store = "string list list"

definition new_list :: "store \<Rightarrow> nat \<times> store" where
  "new_list h = (length h, h @ [[]])"

definition list_append :: "nat \<Rightarrow> string \<Rightarrow> store \<Rightarrow> store" where
  "list_append a x h = h[a := h ! a @ [x]]"

text \<open>Lines 21 to 23 and lines 24 to 26, on the store.\<close>

function halve_store :: "nat \<Rightarrow> store \<Rightarrow> rat \<Rightarrow> store \<times> rat" where
  "halve_store tempos h sf =
     (if sf > 2 then halve_store tempos (list_append tempos ''atempo=2.0'' h) (sf / 2)
      else (h, sf))"
  by pat_completeness auto
termination
proof (relation "measure (\<lambda>(tempos, h, sf). nat \<lceil>sf\<rceil>)")
  show "wf (measure (\<lambda>(tempos, h, sf). nat \<lceil>sf\<rceil>))"
    by simp
next
  fix tempos :: nat and h :: store and sf :: rat
  assume gt: "2 < sf"
  have "sf / 2 \<le> sf - 1"
    using gt by simp
  then have "\<lceil>sf / 2\<rceil> \<le> \<lceil>sf - 1\<rceil>"
    by (rule ceiling_mono)
  then have "\<lceil>sf / 2\<rceil> < \<lceil>sf\<rceil>"
    by simp
  moreover have "0 < \<lceil>sf\<rceil>"
    using gt by (simp add: ceiling_less_iff)
  ultimately show "((tempos, list_append tempos ''atempo=2.0'' h, sf / 2), (tempos, h, sf))
      \<in> measure (\<lambda>(tempos, h, sf). nat \<lceil>sf\<rceil>)"
    by simp
qed

declare halve_store.simps [simp del]

partial_function (option) double_store :: "nat \<Rightarrow> store \<Rightarrow> rat \<Rightarrow> (store \<times> rat) option" where
  "double_store tempos h sf =
     (if sf < 1 / 2 then double_store tempos (list_append tempos ''atempo=0.5'' h) (sf * 2)
      else Some (h, sf))"

declare double_store.simps [code]

text \<open>
  The whole call: it returns the joined text and the store it leaves behind.
\<close>

definition atempo_chain_call :: "(rat \<Rightarrow> string) \<Rightarrow> rat \<Rightarrow> store \<Rightarrow> (string \<times> store) option" where
  "atempo_chain_call fmt sf h =
     (case new_list h of (tempos, h0) \<Rightarrow>
        (case halve_store tempos h0 sf of (h1, sf1) \<Rightarrow>
           (case double_store tempos h1 sf1 of
              None \<Rightarrow> None
            | Some (h2, sf2) \<Rightarrow>
                (let h3 = list_append tempos (atempo_token fmt sf2) h2
                 in Some (join '','' (h3 ! tempos), h3)))))"

section \<open>What the loops compute\<close>

text \<open>
  The first loop appends \<open>k\<close> tokens and leaves \<open>sf / 2 ^ k\<close>; when it runs at all, it
  stops in the half-open interval from 1 to 2.
\<close>

lemma halve_loop_shape:
  "\<exists>k. halve_loop tempos sf = (tempos @ replicate k ''atempo=2.0'', sf / 2 ^ k)
       \<and> (if 2 < sf then 0 < k \<and> 1 < sf / 2 ^ k \<and> sf / 2 ^ k \<le> 2 else k = 0)"
proof (induction tempos sf rule: halve_loop.induct)
  case (1 tempos sf)
  show ?case
  proof (cases "2 < sf")
    case False
    then have "halve_loop tempos sf = (tempos @ replicate 0 ''atempo=2.0'', sf / 2 ^ 0)"
      by (subst halve_loop.simps) simp
    with False show ?thesis by (intro exI [of _ 0]) simp
  next
    case True
    from "1.IH" [OF True] obtain k where
      run: "halve_loop (tempos @ [''atempo=2.0'']) (sf / 2)
              = ((tempos @ [''atempo=2.0'']) @ replicate k ''atempo=2.0'', sf / 2 / 2 ^ k)"
      and post: "if 2 < sf / 2 then 0 < k \<and> 1 < sf / 2 / 2 ^ k \<and> sf / 2 / 2 ^ k \<le> 2 else k = 0"
      by blast
    have "halve_loop tempos sf = halve_loop (tempos @ [''atempo=2.0'']) (sf / 2)"
      using True by (subst halve_loop.simps) simp
    with run have eq:
      "halve_loop tempos sf = (tempos @ replicate (Suc k) ''atempo=2.0'', sf / 2 ^ Suc k)"
      by (simp add: replicate_app_Cons_same)
    have "1 < sf / 2 ^ Suc k \<and> sf / 2 ^ Suc k \<le> 2"
    proof (cases "2 < sf / 2")
      case True
      with post show ?thesis by simp
    next
      case False
      with post have "k = 0" by simp
      with False \<open>2 < sf\<close> show ?thesis by simp
    qed
    with eq True show ?thesis by (intro exI [of _ "Suc k"]) simp
  qed
qed

text \<open>
  The second loop, on a positive \<open>sf\<close>: the ceiling of \<open>1 / sf\<close> decreases with each
  pass, so it returns; it appends \<open>k\<close> tokens and leaves \<open>sf * 2 ^ k\<close>.
\<close>

lemma double_loop_shape:
  assumes "0 < sf"
  shows "\<exists>k. double_loop tempos sf = Some (tempos @ replicate k ''atempo=0.5'', sf * 2 ^ k)
       \<and> (if sf < 1 / 2 then 0 < k \<and> 1 / 2 \<le> sf * 2 ^ k \<and> sf * 2 ^ k < 1 else k = 0)"
  using assms
proof (induction "nat \<lceil>1 / sf\<rceil>" arbitrary: tempos sf rule: less_induct)
  case less
  show ?case
  proof (cases "sf < 1 / 2")
    case False
    then have "double_loop tempos sf = Some (tempos @ replicate 0 ''atempo=0.5'', sf * 2 ^ 0)"
      by (simp add: double_loop.simps)
    with False show ?thesis by (intro exI [of _ 0]) simp
  next
    case True
    have pos: "0 < sf * 2" using less.prems by simp
    have "2 < 1 / sf"
      using True less.prems by (simp add: field_simps)
    then have "1 / (sf * 2) \<le> 1 / sf - 1"
      by (simp add: field_simps)
    then have "\<lceil>1 / (sf * 2)\<rceil> \<le> \<lceil>1 / sf - 1\<rceil>"
      by (rule ceiling_mono)
    then have "\<lceil>1 / (sf * 2)\<rceil> < \<lceil>1 / sf\<rceil>"
      by simp
    moreover have "0 < \<lceil>1 / sf\<rceil>"
      using less.prems by (simp add: ceiling_less_iff)
    ultimately have dec: "nat \<lceil>1 / (sf * 2)\<rceil> < nat \<lceil>1 / sf\<rceil>"
      by simp
    from less.hyps [OF dec pos, of "tempos @ [''atempo=0.5'']"] obtain k where
      run: "double_loop (tempos @ [''atempo=0.5'']) (sf * 2)
              = Some ((tempos @ [''atempo=0.5'']) @ replicate k ''atempo=0.5'', sf * 2 * 2 ^ k)"
      and post: "if sf * 2 < 1 / 2 then 0 < k \<and> 1 / 2 \<le> sf * 2 * 2 ^ k \<and> sf * 2 * 2 ^ k < 1
                 else k = 0"
      by blast
    have "double_loop tempos sf = double_loop (tempos @ [''atempo=0.5'']) (sf * 2)"
      using True by (subst double_loop.simps) simp
    with run have eq:
      "double_loop tempos sf = Some (tempos @ replicate (Suc k) ''atempo=0.5'', sf * 2 ^ Suc k)"
      by (simp add: replicate_app_Cons_same)
    have "1 / 2 \<le> sf * 2 ^ Suc k \<and> sf * 2 ^ Suc k < 1"
    proof (cases "sf * 2 < 1 / 2")
      case True
      with post show ?thesis by simp
    next
      case False
      with post have "k = 0" by simp
      with False \<open>sf < 1 / 2\<close> show ?thesis by simp
    qed
    with eq True show ?thesis by (intro exI [of _ "Suc k"]) simp
  qed
qed

text \<open>Both loops together, by where the speed factor starts.\<close>

lemma atempo_loops_band:
  assumes "1 / 2 \<le> s" and "s \<le> 2"
  shows "atempo_loops s = Some ([], s)"
  using assms by (simp add: atempo_loops_def halve_loop.simps double_loop.simps)

lemma atempo_loops_fast:
  assumes "2 < s"
  shows "\<exists>k. 0 < k \<and> atempo_loops s = Some (replicate k ''atempo=2.0'', s / 2 ^ k)
           \<and> 1 < s / 2 ^ k \<and> s / 2 ^ k \<le> 2"
proof -
  from halve_loop_shape [of "[]" s] assms obtain k where
    run: "halve_loop [] s = (replicate k ''atempo=2.0'', s / 2 ^ k)"
    and k: "0 < k" and lo: "1 < s / 2 ^ k" and hi: "s / 2 ^ k \<le> 2"
    by (auto split: if_splits)
  from lo have "\<not> s / 2 ^ k < 1 / 2" by linarith
  then have "double_loop (replicate k ''atempo=2.0'') (s / 2 ^ k)
      = Some (replicate k ''atempo=2.0'', s / 2 ^ k)"
    by (subst double_loop.simps) simp
  with run have "atempo_loops s = Some (replicate k ''atempo=2.0'', s / 2 ^ k)"
    by (simp add: atempo_loops_def)
  with k lo hi show ?thesis by blast
qed

lemma atempo_loops_slow:
  assumes "0 < s" and "s < 1 / 2"
  shows "\<exists>k. 0 < k \<and> atempo_loops s = Some (replicate k ''atempo=0.5'', s * 2 ^ k)
           \<and> 1 / 2 \<le> s * 2 ^ k \<and> s * 2 ^ k < 1"
proof -
  from assms have "halve_loop [] s = ([], s)"
    by (subst halve_loop.simps) simp
  then have "atempo_loops s = double_loop [] s"
    by (simp add: atempo_loops_def)
  with double_loop_shape [OF assms(1), of "[]"] assms(2) show ?thesis
    by (auto split: if_splits)
qed

lemma atempo_loops_cases:
  assumes "0 < s"
  obtains (fast) k where "2 < s" and "0 < k"
      and "atempo_loops s = Some (replicate k ''atempo=2.0'', s / 2 ^ k)"
      and "1 < s / 2 ^ k" and "s / 2 ^ k \<le> 2"
  | (slow) k where "s < 1 / 2" and "0 < k"
      and "atempo_loops s = Some (replicate k ''atempo=0.5'', s * 2 ^ k)"
      and "1 / 2 \<le> s * 2 ^ k" and "s * 2 ^ k < 1"
  | (band) "1 / 2 \<le> s" and "s \<le> 2" and "atempo_loops s = Some ([], s)"
proof -
  consider "2 < s" | "s < 1 / 2" | "1 / 2 \<le> s \<and> s \<le> 2"
    by linarith
  then show thesis
  proof cases
    case 1
    with atempo_loops_fast [OF 1] fast show thesis by blast
  next
    case 2
    with atempo_loops_slow [OF assms 2] slow show thesis by blast
  next
    case 3
    with atempo_loops_band band show thesis by blast
  qed
qed

lemma tempo_value_simps:
  "tempo_value ''atempo=2.0'' = 2" "tempo_value ''atempo=0.5'' = 1 / 2"
  by (simp_all add: tempo_value_def)

text \<open>The two loops on the store do what the two loops on a list do.\<close>

lemma halve_store_eq:
  "a < length h \<Longrightarrow>
     halve_store a h sf = (case halve_loop (h ! a) sf of (ts, sf') \<Rightarrow> (h[a := ts], sf'))"
proof (induction a h sf rule: halve_store.induct)
  case (1 a h sf)
  show ?case
  proof (cases "2 < sf")
    case False
    then show ?thesis
      by (subst halve_store.simps, subst halve_loop.simps) simp
  next
    case True
    have len: "a < length (list_append a ''atempo=2.0'' h)"
      using "1.prems" by (simp add: list_append_def)
    have "halve_store a h sf = halve_store a (list_append a ''atempo=2.0'' h) (sf / 2)"
      using True by (subst halve_store.simps) simp
    also have "\<dots> = (case halve_loop (list_append a ''atempo=2.0'' h ! a) (sf / 2) of
        (ts, sf') \<Rightarrow> ((list_append a ''atempo=2.0'' h)[a := ts], sf'))"
      by (rule "1.IH" [OF True len])
    also have "\<dots> = (case halve_loop (h ! a @ [''atempo=2.0'']) (sf / 2) of
        (ts, sf') \<Rightarrow> (h[a := ts], sf'))"
      using "1.prems" by (simp add: list_append_def)
    also have "halve_loop (h ! a @ [''atempo=2.0'']) (sf / 2) = halve_loop (h ! a) sf"
      using True by (subst (2) halve_loop.simps) simp
    finally show ?thesis .
  qed
qed

lemma double_store_eq:
  assumes "0 < sf" and "a < length h"
  shows "double_store a h sf =
     (case double_loop (h ! a) sf of None \<Rightarrow> None | Some (ts, sf') \<Rightarrow> Some (h[a := ts], sf'))"
  using assms
proof (induction "nat \<lceil>1 / sf\<rceil>" arbitrary: h sf rule: less_induct)
  case less
  show ?case
  proof (cases "sf < 1 / 2")
    case False
    then show ?thesis
      by (subst double_store.simps, subst double_loop.simps) simp
  next
    case True
    have pos: "0 < sf * 2" using less.prems by simp
    have "2 < 1 / sf"
      using True less.prems by (simp add: field_simps)
    then have "1 / (sf * 2) \<le> 1 / sf - 1"
      by (simp add: field_simps)
    then have "\<lceil>1 / (sf * 2)\<rceil> \<le> \<lceil>1 / sf - 1\<rceil>"
      by (rule ceiling_mono)
    then have "\<lceil>1 / (sf * 2)\<rceil> < \<lceil>1 / sf\<rceil>"
      by simp
    moreover have "0 < \<lceil>1 / sf\<rceil>"
      using less.prems by (simp add: ceiling_less_iff)
    ultimately have dec: "nat \<lceil>1 / (sf * 2)\<rceil> < nat \<lceil>1 / sf\<rceil>"
      by simp
    have len: "a < length (list_append a ''atempo=0.5'' h)"
      using less.prems by (simp add: list_append_def)
    have "double_store a h sf = double_store a (list_append a ''atempo=0.5'' h) (sf * 2)"
      using True by (subst double_store.simps) simp
    also have "\<dots> = (case double_loop (list_append a ''atempo=0.5'' h ! a) (sf * 2) of
        None \<Rightarrow> None
      | Some (ts, sf') \<Rightarrow> Some ((list_append a ''atempo=0.5'' h)[a := ts], sf'))"
      by (rule less.hyps [OF dec pos len])
    also have "\<dots> = (case double_loop (h ! a @ [''atempo=0.5'']) (sf * 2) of
        None \<Rightarrow> None
      | Some (ts, sf') \<Rightarrow> Some (h[a := ts], sf'))"
      using less.prems by (simp add: list_append_def split: option.splits)
    also have "double_loop (h ! a @ [''atempo=0.5'']) (sf * 2) = double_loop (h ! a) sf"
      using True by (subst (2) double_loop.simps) simp
    finally show ?thesis .
  qed
qed

text \<open>Counting the passes: powers of two and logarithms.\<close>

lemma log2_between:
  fixes x :: real
  assumes "2 ^ k < x" and "x \<le> 2 ^ Suc k"
  shows "real k < log 2 x" and "log 2 x \<le> real k + 1"
proof -
  have pos: "0 < x"
    using assms(1) by (meson less_trans zero_less_numeral zero_less_power)
  have "log 2 (2 ^ k) < log 2 x"
    using assms(1) pos by (simp del: log_pow_cancel)
  then show "real k < log 2 x" by simp
  have "log 2 x \<le> log 2 (2 ^ Suc k)"
    using assms(2) pos by (simp del: log_pow_cancel power_Suc)
  then show "log 2 x \<le> real k + 1" by (simp add: log_mult add.commute)
qed

lemma log2_unit:
  fixes y :: real
  assumes "y \<le> 2"
  shows "0 \<le> log 2 (max 1 y)" and "log 2 (max 1 y) \<le> 1"
proof -
  have "1 \<le> max 1 y" and "max 1 y \<le> 2"
    using assms by simp_all
  then show "0 \<le> log 2 (max 1 y)" and "log 2 (max 1 y) \<le> 1"
    by (simp_all add: log_le_iff)
qed

lemma halvings_log:
  fixes s :: rat
  assumes "if 2 < s then 0 < k \<and> 1 < s / 2 ^ k \<and> s / 2 ^ k \<le> 2 else k = 0"
  shows "log 2 (max 1 (real_of_rat s)) - 1 \<le> real k"
    and "real k \<le> log 2 (max 1 (real_of_rat s))"
proof -
  have "log 2 (max 1 (real_of_rat s)) - 1 \<le> real k \<and> real k \<le> log 2 (max 1 (real_of_rat s))"
  proof (cases "2 < s")
    case True
    with assms have "2 ^ k < s" and "s \<le> 2 ^ Suc k"
      by (simp_all add: field_simps)
    then have "real_of_rat (2 ^ k) < real_of_rat s" and "real_of_rat s \<le> real_of_rat (2 ^ Suc k)"
      by (simp_all only: of_rat_less of_rat_less_eq)
    then have "2 ^ k < real_of_rat s" and "real_of_rat s \<le> 2 ^ Suc k"
      by (simp_all add: of_rat_power of_rat_mult)
    from log2_between [OF this] have "real k < log 2 (real_of_rat s)"
      and "log 2 (real_of_rat s) \<le> real k + 1" .
    moreover have "max 1 (real_of_rat s) = real_of_rat s"
      using True \<open>2 ^ k < real_of_rat s\<close> by (simp add: max_def)
    ultimately show ?thesis by simp
  next
    case False
    then have "real_of_rat s \<le> 2"
      by (metis not_less of_rat_less_eq of_rat_numeral_eq)
    from log2_unit [OF this] False assms show ?thesis by simp
  qed
  then show "log 2 (max 1 (real_of_rat s)) - 1 \<le> real k"
    and "real k \<le> log 2 (max 1 (real_of_rat s))" by simp_all
qed

lemma doublings_log:
  fixes s :: rat
  assumes "0 < s"
    and "if s < 1 / 2 then 0 < k \<and> 1 / 2 \<le> s * 2 ^ k \<and> s * 2 ^ k < 1 else k = 0"
  shows "log 2 (max 1 (1 / real_of_rat s)) - 1 \<le> real k"
    and "real k \<le> log 2 (max 1 (1 / real_of_rat s))"
proof -
  have "if 2 < 1 / s then 0 < k \<and> 1 < 1 / s / 2 ^ k \<and> 1 / s / 2 ^ k \<le> 2 else k = 0"
    using assms by (auto simp: field_simps split: if_splits)
  from halvings_log [OF this]
  show "log 2 (max 1 (1 / real_of_rat s)) - 1 \<le> real k"
    and "real k \<le> log 2 (max 1 (1 / real_of_rat s))"
    by (simp_all add: of_rat_divide)
qed

lemma ceiling_log_half:
  fixes m :: rat
  assumes "2 ^ k < m" and "m \<le> 2 ^ Suc k"
  shows "\<lceil>log 2 (real_of_rat m / 2)\<rceil> = int k"
proof -
  from assms have "real_of_rat (2 ^ k) < real_of_rat m" and "real_of_rat m \<le> real_of_rat (2 ^ Suc k)"
    by (simp_all only: of_rat_less of_rat_less_eq)
  then have lo: "2 ^ k < real_of_rat m" and hi: "real_of_rat m \<le> 2 ^ Suc k"
    by (simp_all add: of_rat_power of_rat_mult)
  have pos: "0 < real_of_rat m"
    using lo by (meson less_trans zero_less_numeral zero_less_power)
  have "log 2 (real_of_rat m / 2) = log 2 (real_of_rat m) - 1"
    using pos by (simp add: log_divide)
  with log2_between [OF lo hi] show ?thesis
    by (intro ceiling_unique) simp_all
qed

lemma max_recip_ge1:
  fixes s :: rat
  assumes "1 \<le> s"
  shows "max s (1 / s) = s"
proof -
  have "1 / s \<le> 1" using assms by simp
  with assms have "1 / s \<le> s" by linarith
  then show ?thesis by (simp add: max_def)
qed

lemma max_recip_le1:
  fixes s :: rat
  assumes "0 < s" and "s \<le> 1"
  shows "max s (1 / s) = 1 / s"
proof -
  have "1 \<le> 1 / s" using assms by simp
  with assms have "s \<le> 1 / s" by linarith
  then show ?thesis by (simp add: max_def)
qed

lemma max_recip_gt1:
  fixes s :: rat
  assumes "0 < s" and "s \<noteq> 1"
  shows "1 < max s (1 / s)"
proof -
  consider "1 < s" | "s < 1" using assms(2) by linarith
  then show ?thesis
  proof cases
    case 1
    then show ?thesis by (simp add: less_max_iff_disj)
  next
    case 2
    with assms(1) have "1 < 1 / s" by simp
    then show ?thesis by (simp add: less_max_iff_disj)
  qed
qed

lemma chain_length_facts:
  assumes "0 < s"
  shows "\<exists>ms. stage_multipliers s = Some ms \<and> 1 \<le> length ms
           \<and> (if s = 1 then length ms = 1
               else int (length ms) = \<lceil>log 2 (real_of_rat (max s (1 / s)) / 2)\<rceil> + 1)"
  using assms
proof (cases rule: atempo_loops_cases)
  case (fast k)
  then have "max s (1 / s) = s"
    by (intro max_recip_ge1) simp
  moreover have "2 ^ k < s" and "s \<le> 2 ^ Suc k"
    using fast by (simp_all add: field_simps)
  ultimately have "\<lceil>log 2 (real_of_rat (max s (1 / s)) / 2)\<rceil> = int k"
    by (simp only: ceiling_log_half)
  with fast show ?thesis
    by (simp add: stage_multipliers_def)
next
  case (slow k)
  then have "max s (1 / s) = 1 / s"
    using assms by (intro max_recip_le1) simp_all
  moreover have "2 ^ k < 1 / s" and "1 / s \<le> 2 ^ Suc k"
    using slow assms by (simp_all add: field_simps)
  ultimately have "\<lceil>log 2 (real_of_rat (max s (1 / s)) / 2)\<rceil> = int k"
    by (simp only: ceiling_log_half)
  with slow show ?thesis
    by (simp add: stage_multipliers_def)
next
  case band
  show ?thesis
  proof (cases "s = 1")
    case True
    with band show ?thesis by (simp add: stage_multipliers_def)
  next
    case False
    have "2 ^ 0 < max s (1 / s)" and "max s (1 / s) \<le> 2 ^ Suc 0"
    proof -
      consider "1 < s" | "s < 1" using False by linarith
      then have "1 < max s (1 / s) \<and> max s (1 / s) \<le> 2"
      proof cases
        case 1
        then have "max s (1 / s) = s" by (intro max_recip_ge1) simp
        with 1 band show ?thesis by simp
      next
        case 2
        then have eq: "max s (1 / s) = 1 / s" using assms by (intro max_recip_le1) simp_all
        have "1 < 1 / s" and "1 / s \<le> 2"
          using 2 band assms by (simp_all add: field_simps)
        with eq show ?thesis by simp
      qed
      then show "2 ^ 0 < max s (1 / s)" and "max s (1 / s) \<le> 2 ^ Suc 0"
        by simp_all
    qed
    then have "\<lceil>log 2 (real_of_rat (max s (1 / s)) / 2)\<rceil> = int 0"
      by (rule ceiling_log_half)
    with band False show ?thesis by (simp add: stage_multipliers_def)
  qed
qed

lemmas run_atempo =
  stage_multipliers_def atempo_chain_def atempo_loops_def atempo_token_def tempo_value_def
  halve_loop.simps double_loop.simps

section \<open>Properties of the chain\<close>

text \<open>
  C1. For every speed factor \<open>s > 0\<close> the product of the stage multipliers of the chain
  is within \<open>1e-6\<close> of \<open>s\<close>.
\<close>

theorem chain_product_within_tolerance:
  assumes "0 < s"
  shows "\<exists>ms. stage_multipliers s = Some ms \<and> \<bar>prod_list ms - s\<bar> \<le> 1 / 10 ^ 6"
  using assms
proof (cases rule: atempo_loops_cases)
  case (fast k)
  then show ?thesis
    by (simp add: stage_multipliers_def tempo_value_simps)
next
  case (slow k)
  then show ?thesis
    by (simp add: stage_multipliers_def tempo_value_simps power_one_over)
next
  case band
  then show ?thesis by (simp add: stage_multipliers_def)
qed

theorem chain_product_within_tolerance_witness:
  "(0::rat) < 3 \<and> stage_multipliers 3 = Some [2, 3 / 2]
     \<and> \<bar>prod_list [2, 3 / 2 :: rat] - 3\<bar> \<le> 1 / 10 ^ 6"
  using chain_product_within_tolerance [of 3] by (simp add: run_atempo)

text \<open>
  C2. For every speed factor \<open>s > 0\<close> every stage multiplier of the chain lies between 0.5
  and 2.0, both included; so does the last one, the remainder the loops leave.
\<close>

theorem stages_in_band:
  assumes "0 < s"
  shows "\<exists>ms. stage_multipliers s = Some ms \<and> (\<forall>m\<in>set ms. 1 / 2 \<le> m \<and> m \<le> 2)
           \<and> 1 / 2 \<le> last ms \<and> last ms \<le> 2"
  using assms
proof (cases rule: atempo_loops_cases)
  case (fast k)
  then show ?thesis by (auto simp: stage_multipliers_def tempo_value_simps)
next
  case (slow k)
  then show ?thesis by (auto simp: stage_multipliers_def tempo_value_simps)
next
  case band
  then show ?thesis by (simp add: stage_multipliers_def)
qed

theorem stages_in_band_witness:
  "(0::rat) < 1 / 10 \<and> stage_multipliers (1 / 10) = Some [1 / 2, 1 / 2, 1 / 2, 4 / 5]
     \<and> list_all (\<lambda>m. 1 / 2 \<le> m \<and> m \<le> 2) [1 / 2, 1 / 2, 1 / 2, 4 / 5 :: rat]"
  using stages_in_band [of "1 / 10"] by (simp add: run_atempo)

text \<open>
  C3. For a speed factor between 0.5 and 2.0, both included, neither loop runs and the
  chain is the single stage \<open>s\<close>.
\<close>

theorem single_stage_in_band:
  assumes "1 / 2 \<le> s" and "s \<le> 2"
  shows "stage_multipliers s = Some [s]"
  using assms
  by (simp add: stage_multipliers_def atempo_loops_def halve_loop.simps double_loop.simps)

theorem single_stage_in_band_witness:
  "(1 / 2 \<le> (5 / 4 :: rat)) \<and> (5 / 4 :: rat) \<le> 2 \<and> stage_multipliers (5 / 4) = Some [5 / 4]"
  using single_stage_in_band [of "5 / 4"] by simp

text \<open>
  C4. The scenario table of the specification: the chains for the inputs 1.0, 2.0, 0.5,
  4.0, 8.0, 0.25 and 3.0, and for 3.0 the text the function returns.
\<close>

theorem scenario_table:
  "stage_multipliers 1 = Some [1]
   \<and> stage_multipliers 2 = Some [2]
   \<and> stage_multipliers (1 / 2) = Some [1 / 2]
   \<and> stage_multipliers 4 = Some [2, 2]
   \<and> stage_multipliers 8 = Some [2, 2, 2]
   \<and> stage_multipliers (1 / 4) = Some [1 / 2, 1 / 2]
   \<and> stage_multipliers 3 = Some [2, 3 / 2]
   \<and> atempo_chain fmt 3 = Some (''atempo=2.0,atempo='' @ fmt (3 / 2))"
  by (simp add: run_atempo)

text \<open>
  C5. For every speed factor \<open>s > 0\<close> the call returns: the first loop ends, the second
  loop ends, and the text is produced. The passes of the first loop, one per token it
  appends, are at most \<open>log2 (max 1 s)\<close> and at least that minus one; the passes of the
  second loop are at most \<open>log2 (max 1 (1 / s))\<close> and at least that minus one.
\<close>

theorem atempo_chain_terminates:
  assumes "0 < s"
  shows "\<exists>t1 s1 t2 s2 out.
           halve_loop [] s = (t1, s1) \<and> double_loop t1 s1 = Some (t2, s2)
           \<and> atempo_chain fmt s = Some out
           \<and> log 2 (max 1 (real_of_rat s)) - 1 \<le> real (length t1)
           \<and> real (length t1) \<le> log 2 (max 1 (real_of_rat s))
           \<and> log 2 (max 1 (1 / real_of_rat s)) - 1 \<le> real (length t2 - length t1)
           \<and> real (length t2 - length t1) \<le> log 2 (max 1 (1 / real_of_rat s))"
proof -
  from halve_loop_shape [of "[]" s] obtain k1 where
    h: "halve_loop [] s = (replicate k1 ''atempo=2.0'', s / 2 ^ k1)"
    and p1: "if 2 < s then 0 < k1 \<and> 1 < s / 2 ^ k1 \<and> s / 2 ^ k1 \<le> 2 else k1 = 0"
    by auto
  have "0 < s / 2 ^ k1"
    using assms by simp
  from double_loop_shape [OF this, of "replicate k1 ''atempo=2.0''"] obtain k2 where
    d: "double_loop (replicate k1 ''atempo=2.0'') (s / 2 ^ k1)
          = Some (replicate k1 ''atempo=2.0'' @ replicate k2 ''atempo=0.5'', s / 2 ^ k1 * 2 ^ k2)"
    and p2: "if s / 2 ^ k1 < 1 / 2
             then 0 < k2 \<and> 1 / 2 \<le> s / 2 ^ k1 * 2 ^ k2 \<and> s / 2 ^ k1 * 2 ^ k2 < 1
             else k2 = 0"
    by auto
  have p2': "if s < 1 / 2 then 0 < k2 \<and> 1 / 2 \<le> s * 2 ^ k2 \<and> s * 2 ^ k2 < 1 else k2 = 0"
  proof (cases "2 < s")
    case True
    with p1 have "\<not> s / 2 ^ k1 < 1 / 2" by auto
    with p2 True show ?thesis by (auto split: if_splits)
  next
    case False
    with p1 have "k1 = 0" by simp
    with p2 show ?thesis by (auto split: if_splits)
  qed
  have "atempo_chain fmt s = Some (join '',''
      ((replicate k1 ''atempo=2.0'' @ replicate k2 ''atempo=0.5'')
        @ [atempo_token fmt (s / 2 ^ k1 * 2 ^ k2)]))"
    using h d by (simp add: atempo_chain_def atempo_loops_def)
  with h d halvings_log [OF p1] doublings_log [OF assms p2'] show ?thesis
    by (intro exI conjI) (assumption | simp)+
qed

theorem atempo_chain_terminates_witness:
  "(0::rat) < 8 \<and> halve_loop [] 8 = ([''atempo=2.0'', ''atempo=2.0''], 2)
     \<and> double_loop [''atempo=2.0'', ''atempo=2.0''] 2 = Some ([''atempo=2.0'', ''atempo=2.0''], 2)
     \<and> atempo_chain (\<lambda>v. ''2.0'') 8 = Some ''atempo=2.0,atempo=2.0,atempo=2.0''"
  using atempo_chain_terminates [of 8 "\<lambda>v. ''2.0''"] by (simp add: run_atempo)

text \<open>
  C6, as the code has it. For every speed factor \<open>s > 0\<close> other than 1 the length of the
  chain is \<open>ceil (log2 (max s (1 / s) / 2)) + 1\<close> exactly (at \<open>s = 1\<close> the formula gives 0
  and the chain has one stage), and the length never decreases as \<open>max s (1 / s)\<close>
  grows, that is, as \<open>s\<close> moves away from the band from 0.5 to 2.0. It does not increase
  strictly: 3.0 and 4.0 both give two stages.
\<close>

theorem chain_length_log_monotone:
  assumes "0 < s" and "0 < t"
  shows "\<exists>ms mt. stage_multipliers s = Some ms \<and> stage_multipliers t = Some mt
           \<and> (s \<noteq> 1 \<longrightarrow>
                int (length ms) = \<lceil>log 2 (real_of_rat (max s (1 / s)) / 2)\<rceil> + 1)
           \<and> (s = 1 \<longrightarrow> length ms = 1)
           \<and> (max s (1 / s) \<le> max t (1 / t) \<longrightarrow> length ms \<le> length mt)"
proof -
  from chain_length_facts [OF assms(1)] obtain ms where
    ms: "stage_multipliers s = Some ms"
    and ms1: "s = 1 \<Longrightarrow> length ms = 1"
    and msl: "s \<noteq> 1 \<Longrightarrow> int (length ms) = \<lceil>log 2 (real_of_rat (max s (1 / s)) / 2)\<rceil> + 1"
    by (auto split: if_splits)
  from chain_length_facts [OF assms(2)] obtain mt where
    mt: "stage_multipliers t = Some mt" and mtn: "1 \<le> length mt"
    and mtl: "t \<noteq> 1 \<Longrightarrow> int (length mt) = \<lceil>log 2 (real_of_rat (max t (1 / t)) / 2)\<rceil> + 1"
    by (auto split: if_splits)
  have "length ms \<le> length mt" if le: "max s (1 / s) \<le> max t (1 / t)"
  proof (cases "s = 1")
    case True
    with ms1 mtn show ?thesis by simp
  next
    case False
    from max_recip_gt1 [OF assms(1) False] le have gt: "1 < max t (1 / t)"
      by linarith
    then have "t \<noteq> 1" by auto
    have pos: "0 < real_of_rat (max s (1 / s)) / 2"
      using max_recip_gt1 [OF assms(1) False] by simp
    have "real_of_rat (max s (1 / s)) \<le> real_of_rat (max t (1 / t))"
      using le by (simp only: of_rat_less_eq)
    then have "real_of_rat (max s (1 / s)) / 2 \<le> real_of_rat (max t (1 / t)) / 2"
      by simp
    with pos have "log 2 (real_of_rat (max s (1 / s)) / 2)
        \<le> log 2 (real_of_rat (max t (1 / t)) / 2)"
      by (intro log_mono) simp_all
    then have "\<lceil>log 2 (real_of_rat (max s (1 / s)) / 2)\<rceil> \<le> \<lceil>log 2 (real_of_rat (max t (1 / t)) / 2)\<rceil>"
      by (rule ceiling_mono)
    with msl [OF False] mtl [OF \<open>t \<noteq> 1\<close>] show ?thesis by simp
  qed
  with ms mt msl ms1 show ?thesis by blast
qed

theorem chain_length_log_monotone_witness:
  "(0::rat) < 4 \<and> (0::rat) < 8
     \<and> stage_multipliers 4 = Some [2, 2] \<and> stage_multipliers 8 = Some [2, 2, 2]
     \<and> \<lceil>log 2 (real_of_rat (max 4 (1 / 4)) / 2)\<rceil> + 1 = 2
     \<and> max 4 (1 / 4) \<le> max 8 (1 / 8 :: rat)"
  using chain_length_log_monotone [of 4 8] by (simp add: run_atempo)

text \<open>
  The claim C6 as stated asks for a strictly increasing length; between 3.0 and 4.0 the
  speed factor moves away from the band and the length stays 2.
\<close>

theorem chain_length_not_strict:
  "(2::rat) < 3 \<and> (3::rat) < 4
     \<and> stage_multipliers 3 = Some [2, 3 / 2] \<and> stage_multipliers 4 = Some [2, 2]
     \<and> \<not> length [2, 3 / 2 :: rat] < length [2, 2 :: rat]"
  by (simp add: run_atempo)

text \<open>
  C7. For every speed factor \<open>s > 0\<close> the text returned is the stages of the chain, each
  written as the token \<open>atempo=<value>\<close>, joined by commas in the order of the chain. The
  literal tokens of the loops are the formatted values 2.0 and 0.5 because Python prints
  these two floats as \<open>2.0\<close> and \<open>0.5\<close>.
\<close>

theorem chain_is_joined_tokens:
  assumes "fmt 2 = ''2.0''" and "fmt (1 / 2) = ''0.5''" and "0 < s"
  shows "\<exists>ms. stage_multipliers s = Some ms
           \<and> atempo_chain fmt s = Some (join '','' (map (atempo_token fmt) ms))"
  using \<open>0 < s\<close>
proof (cases rule: atempo_loops_cases)
  case (fast k)
  have "atempo_token fmt 2 = ''atempo=2.0''"
    using assms(1) by (simp add: atempo_token_def)
  with fast show ?thesis
    by (simp add: stage_multipliers_def atempo_chain_def tempo_value_simps)
next
  case (slow k)
  have "atempo_token fmt (1 / 2) = ''atempo=0.5''"
    using assms(2) by (simp add: atempo_token_def)
  with slow show ?thesis
    by (simp add: stage_multipliers_def atempo_chain_def tempo_value_simps)
next
  case band
  then show ?thesis
    by (simp add: stage_multipliers_def atempo_chain_def)
qed

theorem chain_is_joined_tokens_witness:
  "atempo_chain (\<lambda>v. if v = 2 then ''2.0'' else if v = 1 / 2 then ''0.5'' else ''1.25'') 5
     = Some ''atempo=2.0,atempo=2.0,atempo=1.25''
   \<and> stage_multipliers 5 = Some [2, 2, 5 / 4]"
  using chain_is_joined_tokens
    [of "\<lambda>v. if v = 2 then ''2.0'' else if v = 1 / 2 then ''0.5'' else ''1.25''" 5]
  by (simp add: run_atempo)

text \<open>
  C8. For every speed factor \<open>s > 0\<close>, calls from any two stores return the same text,
  the text of \<open>atempo_chain\<close>, and each leaves its store as it was with one more object
  at the end, the list the call made for itself: no object that was there before the call
  is changed.
\<close>

theorem atempo_chain_call_pure:
  assumes "0 < s"
  shows "\<exists>out tempos. atempo_chain fmt s = Some out
           \<and> atempo_chain_call fmt s h = Some (out, h @ [tempos])
           \<and> atempo_chain_call fmt s h' = Some (out, h' @ [tempos])"
proof -
  obtain t1 s1 where h1: "halve_loop [] s = (t1, s1)"
    by (cases "halve_loop [] s")
  from halve_loop_shape [of "[]" s] h1 assms have "0 < s1"
    by auto
  from double_loop_shape [OF this, of t1] obtain t2 s2 where
    d1: "double_loop t1 s1 = Some (t2, s2)"
    by blast
  let ?ts = "t2 @ [atempo_token fmt s2]"
  have pure: "atempo_chain fmt s = Some (join '','' ?ts)"
    using h1 d1 by (simp add: atempo_chain_def atempo_loops_def)
  have call: "atempo_chain_call fmt s g = Some (join '','' ?ts, g @ [?ts])" for g
  proof -
    have "halve_store (length g) (g @ [[]]) s = (g @ [t1], s1)"
      using h1 by (simp add: halve_store_eq)
    moreover have "double_store (length g) (g @ [t1]) s1 = Some (g @ [t2], s2)"
      using d1 \<open>0 < s1\<close> by (simp add: double_store_eq)
    ultimately show ?thesis
      by (simp add: atempo_chain_call_def new_list_def list_append_def)
  qed
  from pure call [of h] call [of h'] show ?thesis by blast
qed

theorem atempo_chain_call_pure_witness:
  "(0::rat) < 3
   \<and> atempo_chain (\<lambda>v. ''1.5'') 3 = Some ''atempo=2.0,atempo=1.5''
   \<and> atempo_chain_call (\<lambda>v. ''1.5'') 3 [[''a'', ''b'']]
       = Some (''atempo=2.0,atempo=1.5'', [[''a'', ''b''], [''atempo=2.0'', ''atempo=1.5'']])
   \<and> atempo_chain_call (\<lambda>v. ''1.5'') 3 []
       = Some (''atempo=2.0,atempo=1.5'', [[''atempo=2.0'', ''atempo=1.5'']])"
  using atempo_chain_call_pure [of 3 "\<lambda>v. ''1.5''" "[[''a'', ''b'']]" "[]"]
  by (simp add: run_atempo atempo_chain_call_def new_list_def list_append_def
      halve_store.simps double_store.simps)

text \<open>
  C9. For every speed factor \<open>s > 0\<close> the chain is not empty, it does not hold both a 2.0
  and a 0.5, and all its stages but the last are 2.0 when \<open>s > 2.0\<close> and 0.5 when
  \<open>s < 0.5\<close>.
\<close>

theorem chain_shape:
  assumes "0 < s"
  shows "\<exists>ms. stage_multipliers s = Some ms \<and> ms \<noteq> []
           \<and> \<not> (2 \<in> set ms \<and> 1 / 2 \<in> set ms)
           \<and> (2 < s \<longrightarrow> (\<forall>m\<in>set (butlast ms). m = 2))
           \<and> (s < 1 / 2 \<longrightarrow> (\<forall>m\<in>set (butlast ms). m = 1 / 2))"
  using assms
proof (cases rule: atempo_loops_cases)
  case (fast k)
  then show ?thesis
    by (auto simp: stage_multipliers_def tempo_value_simps butlast_append)
next
  case (slow k)
  then show ?thesis
    by (auto simp: stage_multipliers_def tempo_value_simps butlast_append)
next
  case band
  then show ?thesis by (auto simp: stage_multipliers_def)
qed

theorem chain_shape_witness:
  "(0::rat) < 5 \<and> (2::rat) < 5 \<and> stage_multipliers 5 = Some [2, 2, 5 / 4]
     \<and> butlast [2, 2, 5 / 4 :: rat] = [2, 2] \<and> (1 / 2 :: rat) \<notin> set [2, 2, 5 / 4]"
  using chain_shape [of 5] by (simp add: run_atempo)

text \<open>
  C10. Over exact rational arithmetic the product of the stage multipliers is \<open>s\<close> with
  no error at all: the loops leave \<open>s / 2 ^ k\<close> after \<open>k\<close> stages of 2.0, or \<open>s * 2 ^ k\<close>
  after \<open>k\<close> stages of 0.5, and that remainder is the last stage.
\<close>

theorem chain_product_exact:
  assumes "0 < s"
  shows "\<exists>ms k. stage_multipliers s = Some ms \<and> prod_list ms = s
           \<and> (ms = replicate k 2 @ [s / 2 ^ k] \<or> ms = replicate k (1 / 2) @ [s * 2 ^ k])"
  using assms
proof (cases rule: atempo_loops_cases)
  case (fast k)
  then show ?thesis
    by (intro exI [of _ "replicate k 2 @ [s / 2 ^ k]"] exI [of _ k])
      (simp add: stage_multipliers_def tempo_value_simps)
next
  case (slow k)
  then show ?thesis
    by (intro exI [of _ "replicate k (1 / 2) @ [s * 2 ^ k]"] exI [of _ k])
      (simp add: stage_multipliers_def tempo_value_simps power_one_over)
next
  case band
  then show ?thesis
    by (intro exI [of _ "[s]"] exI [of _ 0]) (simp add: stage_multipliers_def)
qed

theorem chain_product_exact_witness:
  "(0::rat) < 1 / 10 \<and> stage_multipliers (1 / 10) = Some [1 / 2, 1 / 2, 1 / 2, 4 / 5]
     \<and> prod_list [1 / 2, 1 / 2, 1 / 2, 4 / 5 :: rat] = 1 / 10"
  using chain_product_exact [of "1 / 10"] by (simp add: run_atempo)

end
